theory Spec2Isabelle
  imports Main "HOL-Library.Word"
begin

unbundle bit_operations_syntax

section \<open>The Fenwick tree of \<open>fenwick_tree.cc\<close>\<close>

text \<open>
  The C++ type \<open>int\<close> is a 32-bit two's complement integer: \<open>32 word\<close>, on which
  \<open>+\<close>, \<open>-\<close> and unary minus wrap around, \<open>AND\<close> works bitwise, \<open>sint\<close> reads the value
  and \<open>\<le>s\<close>, \<open><s\<close> compare as signed numbers.

  The class has the two members \<open>size_\<close> and \<open>tree_\<close>, here the fields \<open>size_f\<close> and
  \<open>tree_f\<close> (a name cannot end with an underscore); \<open>std::vector<int>\<close> is a list.
  A subscript \<open>tree_[index]\<close> outside the vector has no defined behaviour in C++: the model
  stops there with the fault \<open>OutOfBounds\<close>. The constructor of \<open>std::vector\<close> throws
  \<open>std::length_error\<close> when the element count, converted to the unsigned size type,
  exceeds every possible size, which is what a negative \<open>int\<close> converts to: the fault
  \<open>LengthError\<close>. Memory is not bounded: an allocation of any other size succeeds.
\<close>

type_synonym cint = "32 word"

datatype fault = OutOfBounds | LengthError

record FenwickTree =
  size_f :: cint
  tree_f :: "cint list"

text \<open>\<open>FenwickTree(int size) : size_(size), tree_(size + 1, 0) {}\<close>\<close>

definition FenwickTree_ctor :: "cint \<Rightarrow> fault + FenwickTree" where
  "FenwickTree_ctor sz =
     (let n = sz + 1 in
      if n <s 0 then Inl LengthError
      else Inr \<lparr>size_f = sz, tree_f = replicate (nat (sint n)) 0\<rparr>)"

text \<open>
  The loop of \<open>update\<close>:
  \<^verbatim>\<open>while (index <= size_) { tree_[index] += delta; index += index & (-index); }\<close>
  It need not stop (at \<open>index = 0\<close> the step adds 0), so it is a partial function: \<open>None\<close>
  is the loop that runs forever.
\<close>

partial_function (option) update_loop ::
  "FenwickTree \<Rightarrow> cint \<Rightarrow> cint \<Rightarrow> (fault + FenwickTree) option" where
  "update_loop s index delta =
     (if index \<le>s size_f s then
        (if 0 \<le>s index \<and> nat (sint index) < length (tree_f s) then
           update_loop
             (s\<lparr>tree_f := (tree_f s)[nat (sint index) := tree_f s ! nat (sint index) + delta]\<rparr>)
             (index + (index AND (- index))) delta
         else Some (Inl OutOfBounds))
      else Some (Inr s))"

text \<open>\<open>void update(int index, int delta)\<close>: \<open>index++\<close>, then the loop.\<close>

definition update :: "FenwickTree \<Rightarrow> cint \<Rightarrow> cint \<Rightarrow> (fault + FenwickTree) option" where
  "update s index delta = update_loop s (index + 1) delta"

text \<open>
  The loop of \<open>query\<close>, with its local variable \<open>sum\<close> (here \<open>sm\<close>):
  \<^verbatim>\<open>while (index > 0) { sum += tree_[index]; index -= index & (-index); }\<close>
\<close>

partial_function (option) query_loop ::
  "FenwickTree \<Rightarrow> cint \<Rightarrow> cint \<Rightarrow> (fault + cint) option" where
  "query_loop s index sm =
     (if 0 <s index then
        (if nat (sint index) < length (tree_f s) then
           query_loop s (index - (index AND (- index))) (sm + tree_f s ! nat (sint index))
         else Some (Inl OutOfBounds))
      else Some (Inr sm))"

text \<open>
  \<open>int query(int index)\<close>: \<open>index++\<close>, \<open>sum = 0\<close>, the loop, \<open>return sum\<close>. The method is
  not \<open>const\<close>: it returns the sum together with the object as the call leaves it. No
  statement of the body assigns to a member.
\<close>

definition query :: "FenwickTree \<Rightarrow> cint \<Rightarrow> (fault + cint \<times> FenwickTree) option" where
  "query s index =
     (case query_loop s (index + 1) 0 of
        None \<Rightarrow> None
      | Some (Inl e) \<Rightarrow> Some (Inl e)
      | Some (Inr sm) \<Rightarrow> Some (Inr (sm, s)))"

declare update_loop.simps [code]
declare query_loop.simps [code]

subsection \<open>Sequences of calls\<close>

text \<open>
  A call that faults or never returns ends the run: \<open>then_do\<close> passes the result of a
  call that returned to the rest of the program.
\<close>

definition then_do :: "(fault + 'a) option \<Rightarrow> ('a \<Rightarrow> (fault + 'b) option) \<Rightarrow> (fault + 'b) option" where
  "then_do m f = (case m of None \<Rightarrow> None | Some (Inl e) \<Rightarrow> Some (Inl e) | Some (Inr x) \<Rightarrow> f x)"

text \<open>The calls \<open>update(j, delta)\<close> of a list, one after the other, the first one first.\<close>

fun update_all :: "FenwickTree \<Rightarrow> (cint \<times> cint) list \<Rightarrow> (fault + FenwickTree) option" where
  "update_all s [] = Some (Inr s)"
| "update_all s ((j, d) # ops) = then_do (update s j d) (\<lambda>s'. update_all s' ops)"

section \<open>The vocabulary of the specification\<close>

text \<open>
  The lowest set bit of a position, on the integers: \<open>i & -i\<close>. The positions of the
  accumulator sequence are read as integers (\<open>sint\<close>).
\<close>

definition lowbit :: "int \<Rightarrow> int" where
  "lowbit i = i AND (- i)"

text \<open>
  A store of capacity \<open>size_\<close> \<open>\<ge> 0\<close> holds \<open>size_ + 1\<close> accumulators: what the constructor
  builds and every call that returns keeps.
\<close>

definition well_formed :: "FenwickTree \<Rightarrow> bool" where
  "well_formed s \<longleftrightarrow> 0 \<le>s size_f s \<and> int (length (tree_f s)) = sint (size_f s) + 1"

text \<open>
  Slot \<open>i\<close> covers the 1-based positions \<open>i - lowbit i < p \<le> i\<close>. The walk of \<open>update\<close>
  from position \<open>p\<close> visits the slots that cover \<open>p\<close>; it leaves the range of \<open>int\<close> when
  one of them, within the capacity \<open>n\<close>, has its successor \<open>q + lowbit q\<close> at \<open>2^31\<close> or above.
\<close>

definition covers :: "int \<Rightarrow> int \<Rightarrow> bool" where
  "covers i p \<longleftrightarrow> p \<le> i \<and> i - lowbit i < p"

definition overflows :: "int \<Rightarrow> int \<Rightarrow> bool" where
  "overflows n p \<longleftrightarrow> (\<exists>q\<in>{p..n}. covers q p \<and> 2 ^ 31 \<le> q + lowbit q)"

definition add_covering :: "cint list \<Rightarrow> int \<Rightarrow> cint \<Rightarrow> cint list" where
  "add_covering t p d = map (\<lambda>i. if covers (int i) p then t ! i + d else t ! i) [0..<length t]"

text \<open>
  The store represents the logical array \<open>a\<close> (indexed from 0): slot 0 is zero and slot
  \<open>i\<close> in \<open>1..size_\<close> is the sum of the elements with the 0-based indices
  \<open>i - lowbit i \<le> k < i\<close>, the 1-based positions \<open>i - lowbit i + 1\<close> to \<open>i\<close> of the comment
  on \<open>tree_\<close>. Sums are sums of \<open>int\<close> values: they wrap around.
\<close>

definition represents :: "FenwickTree \<Rightarrow> (int \<Rightarrow> cint) \<Rightarrow> bool" where
  "represents s a \<longleftrightarrow>
     well_formed s \<and> tree_f s ! 0 = 0 \<and>
     (\<forall>i\<in>{1..sint (size_f s)}. tree_f s ! nat i = sum a {i - lowbit i..<i})"

text \<open>
  The same with the range as the specification words it: the elements whose 0-based
  indices lie in the half-open range \<open>(i - lowbit(i), i]\<close>.
\<close>

definition spec_represents :: "FenwickTree \<Rightarrow> (int \<Rightarrow> cint) \<Rightarrow> bool" where
  "spec_represents s a \<longleftrightarrow>
     well_formed s \<and> tree_f s ! 0 = 0 \<and>
     (\<forall>i\<in>{1..sint (size_f s)}. tree_f s ! nat i = sum a {i - lowbit i<..i})"

text \<open>
  A history of calls \<open>update(j, delta)\<close> is the list of the pairs \<open>(j, delta)\<close>. The logical
  element \<open>k\<close> is the sum of the deltas of the calls at \<open>k\<close>, and \<open>prefix_sum ops k\<close> is the
  sum of \<open>delta\<close> over every \<open>update(j, delta)\<close> of the history with \<open>j \<le> k\<close>.
\<close>

definition elem_of :: "(cint \<times> cint) list \<Rightarrow> int \<Rightarrow> cint" where
  "elem_of ops k = sum_list (map (\<lambda>(j, d). if sint j = k then d else 0) ops)"

definition prefix_sum :: "(cint \<times> cint) list \<Rightarrow> cint \<Rightarrow> cint" where
  "prefix_sum ops k = sum_list (map snd (filter (\<lambda>(j, d). j \<le>s k) ops))"

text \<open>The same sum on the integers, each \<open>delta\<close> read as the signed number it is.\<close>

definition prefix_sum_int :: "(cint \<times> cint) list \<Rightarrow> cint \<Rightarrow> int" where
  "prefix_sum_int ops k = sum_list (map (\<lambda>(j, d). sint d) (filter (\<lambda>(j, d). j \<le>s k) ops))"

text \<open>An index within the capacity of the store: \<open>0 \<le> j < size_\<close>.\<close>

definition in_range :: "FenwickTree \<Rightarrow> cint \<Rightarrow> bool" where
  "in_range s j \<longleftrightarrow> 0 \<le>s j \<and> j <s size_f s"

section \<open>The lowest set bit\<close>

lemma lowbit_odd: "odd p \<Longrightarrow> lowbit p = 1"
proof -
  assume o: "odd p"
  have "bit (p AND - p) n \<longleftrightarrow> bit (1::int) n" for n
  proof (cases n)
    case 0
    with o show ?thesis by (simp add: bit_0 even_and_iff)
  next
    case (Suc m)
    have "bit (- p) (Suc m) \<longleftrightarrow> \<not> bit (p - 1) (Suc m)"
      by (simp add: minus_eq_not_minus_1 bit_not_iff)
    moreover have "bit (p - 1) (Suc m) \<longleftrightarrow> bit p (Suc m)"
      using o by (metis odd_bit_iff_bit_pred Suc_neq_Zero)
    ultimately show ?thesis using Suc by (simp add: bit_and_iff bit_1_iff)
  qed
  then show ?thesis unfolding lowbit_def by (rule bit_eqI)
qed

lemma and_minus_double: "(2 * q) AND (- (2 * q)) = 2 * (q AND - (q::int))"
proof -
  have e: "push_bit 1 x = 2 * x" for x :: int
    by (simp add: push_bit_eq_mult)
  have "push_bit 1 q AND push_bit 1 (- q) = push_bit 1 (q AND - q)"
    by (simp only: push_bit_and)
  then show ?thesis unfolding e by simp
qed

lemma lowbit_even: "even p \<Longrightarrow> lowbit p = 2 * lowbit (p div 2)"
  unfolding lowbit_def using and_minus_double [of "p div 2"] by simp

lemma lowbit_props:
  "0 < p \<Longrightarrow> 0 < lowbit p \<and> lowbit p \<le> p \<and> even (p - lowbit p)"
proof (induction "nat p" arbitrary: p rule: less_induct)
  case less
  show ?case
  proof (cases "even p")
    case True
    then have "0 < p div 2" "nat (p div 2) < nat p" using less.prems by auto
    from less.hyps [OF this(2) this(1)] True show ?thesis
      by (auto simp: lowbit_even)
  next
    case False
    then show ?thesis using less.prems by (simp add: lowbit_odd)
  qed
qed


lemma lowbit_between:
  "0 < p \<Longrightarrow> p < q \<Longrightarrow> q < p + lowbit p \<Longrightarrow> p \<le> q - lowbit q"
proof (induction "nat p" arbitrary: p q rule: less_induct)
  case less
  show ?case
  proof (cases "even p")
    case False
    with less.prems show ?thesis by (simp add: lowbit_odd)
  next
    case True
    note ep = this
    show ?thesis
    proof (cases "even q")
      case False
      with less.prems show ?thesis by (simp add: lowbit_odd)
    next
      case True
      have "0 < p div 2" "nat (p div 2) < nat p" using less.prems ep by auto
      moreover have "p div 2 < q div 2" using less.prems ep True by auto
      moreover have "q div 2 < p div 2 + lowbit (p div 2)"
        using less.prems ep True by (auto simp: lowbit_even)
      ultimately have "p div 2 \<le> q div 2 - lowbit (q div 2)"
        using less.hyps by blast
      then show ?thesis using ep True by (auto simp: lowbit_even)
    qed
  qed
qed


lemma lowbit_succ_cover:
  "0 < p \<Longrightarrow> p + lowbit p \<le> i \<Longrightarrow> i - lowbit i < p + lowbit p \<Longrightarrow> i - lowbit i < p"
proof (induction "nat p" arbitrary: p i rule: less_induct)
  case less
  have ip: "0 < i" using less.prems lowbit_props [of p] by linarith
  show ?case
  proof (cases "even p")
    case False
    then have "lowbit p = 1" by (simp add: lowbit_odd)
    moreover have "even (i - lowbit i)" using lowbit_props [OF ip] by simp
    ultimately show ?thesis using less.prems False
      by (metis add.commute add_le_cancel_left le_less not_less zless_imp_add1_zle diff_add_cancel)
  next
    case True
    note ep = this
    show ?thesis
    proof (cases "even i")
      case False
      then have "i - lowbit i = i - 1" by (simp add: lowbit_odd)
      with less.prems have "i = p + lowbit p" by linarith
      moreover have "even (p + lowbit p)" using ep by (simp add: lowbit_even)
      ultimately show ?thesis using False by simp
    next
      case True
      have "0 < p div 2" "nat (p div 2) < nat p" using less.prems ep by auto
      moreover have "p div 2 + lowbit (p div 2) \<le> i div 2"
        using less.prems ep True by (auto simp: lowbit_even)
      moreover have "i div 2 - lowbit (i div 2) < p div 2 + lowbit (p div 2)"
        using less.prems ep True by (auto simp: lowbit_even)
      ultimately have "i div 2 - lowbit (i div 2) < p div 2"
        using less.hyps by blast
      then show ?thesis using ep True by (auto simp: lowbit_even)
    qed
  qed
qed

section \<open>Positions as 32-bit integers\<close>

text \<open>
  One step of either loop on a position \<open>0 < p\<close>, read with \<open>sint\<close>: the step of \<open>query\<close>
  stays in range, the step of \<open>update\<close> wraps around to a negative position when
  \<open>p + lowbit p\<close> reaches \<open>2^31\<close>.
\<close>

lemma sint_lowbit:
  fixes w :: cint
  assumes "0 < sint w"
  shows "sint (w AND - w) = lowbit (sint w)"
proof -
  have "w AND - w = word_of_int (sint w) AND word_of_int (- sint w)"
    by simp
  also have "\<dots> = word_of_int (lowbit (sint w))"
    unfolding lowbit_def by (simp only: of_int_and_eq)
  finally have "sint (w AND - w) = signed_take_bit 31 (lowbit (sint w))"
    by (simp add: sint_sbintrunc')
  moreover have "0 < lowbit (sint w)" "lowbit (sint w) \<le> sint w"
    using lowbit_props [OF assms] by auto
  moreover have "sint w < 2 ^ 31"
    using sint_lt [of w] by simp
  ultimately show ?thesis
    by (simp add: signed_take_bit_int_eq_self)
qed

lemma sint_query_step:
  fixes w :: cint
  assumes "0 < sint w"
  shows "sint (w - (w AND - w)) = sint w - lowbit (sint w)"
proof -
  have "0 < lowbit (sint w)" "lowbit (sint w) \<le> sint w"
    using lowbit_props [OF assms] by auto
  moreover have "sint w < 2 ^ 31"
    using sint_lt [of w] by simp
  ultimately show ?thesis
    by (simp add: sint_word_diff sint_lowbit [OF assms] signed_take_bit_int_eq_self)
qed

lemma sint_update_step:
  fixes w :: cint
  assumes "0 < sint w" "sint w + lowbit (sint w) < 2 ^ 31"
  shows "sint (w + (w AND - w)) = sint w + lowbit (sint w)"
proof -
  have "0 < lowbit (sint w)"
    using lowbit_props [OF assms(1)] by auto
  then show ?thesis using assms
    by (simp add: sint_word_add sint_lowbit [OF assms(1)] signed_take_bit_int_eq_self)
qed

lemma sint_update_step_overflow:
  fixes w :: cint
  assumes "0 < sint w" "2 ^ 31 \<le> sint w + lowbit (sint w)"
  shows "sint (w + (w AND - w)) < 0"
proof -
  have "lowbit (sint w) \<le> sint w"
    using lowbit_props [OF assms(1)] by auto
  moreover have "sint w < 2 ^ 31"
    using sint_lt [of w] by simp
  moreover have "signed_take_bit 31 (sint w + lowbit (sint w)) \<le> sint w + lowbit (sint w) - 2 ^ Suc 31"
    using assms(2) by (rule signed_take_bit_int_less_eq)
  moreover have "sint (w + (w AND - w)) = signed_take_bit 31 (sint w + lowbit (sint w))"
    by (simp add: sint_word_add sint_lowbit [OF assms(1)])
  ultimately show ?thesis
    by (simp del: signed_take_bit_negative_iff)
qed

lemma sint_succ:
  fixes w :: cint
  assumes "sint w < 2 ^ 31 - 1"
  shows "sint (w + 1) = sint w + 1"
proof -
  have "- (2 ^ 31) \<le> sint w" using sint_ge [of w] by simp
  then show ?thesis using assms
    by (simp add: sint_word_add signed_take_bit_int_eq_self)
qed

section \<open>The walk of update\<close>

text \<open>
  The loop of \<open>update\<close> from the position \<open>p\<close> adds \<open>delta\<close> to the slots that cover \<open>p\<close>, or
  ends in an out-of-range subscript when the walk leaves the range of \<open>int\<close>.
\<close>

lemma covers_step:
  assumes "0 < p"
  shows "covers i p \<longleftrightarrow> i = p \<or> covers i (p + lowbit p)"
proof
  assume c: "covers i p"
  show "i = p \<or> covers i (p + lowbit p)"
  proof (cases "i = p")
    case False
    with c have lt: "p < i" by (simp add: covers_def)
    have "\<not> i < p + lowbit p"
      using lowbit_between [OF assms lt] c by (auto simp: covers_def)
    moreover have "0 < lowbit p" using lowbit_props [OF assms] by simp
    ultimately show ?thesis using c by (simp add: covers_def)
  qed simp
next
  assume "i = p \<or> covers i (p + lowbit p)"
  then show "covers i p"
  proof
    assume "i = p"
    then show ?thesis using lowbit_props [OF assms] by (simp add: covers_def)
  next
    assume c: "covers i (p + lowbit p)"
    then have "i - lowbit i < p"
      using lowbit_succ_cover [OF assms, of i] by (simp add: covers_def)
    moreover have "p \<le> i" using c lowbit_props [OF assms] by (simp add: covers_def)
    ultimately show ?thesis by (simp add: covers_def)
  qed
qed

lemma overflows_iff:
  "overflows n p \<longleftrightarrow> (\<exists>q. q \<le> n \<and> covers q p \<and> 2 ^ 31 \<le> q + lowbit q)"
  by (auto simp: overflows_def covers_def)

lemma overflows_step:
  assumes "0 < p" "p \<le> n" "p + lowbit p < 2 ^ 31"
  shows "overflows n (p + lowbit p) \<longleftrightarrow> overflows n p"
  unfolding overflows_iff using covers_step [OF assms(1)] assms(3) by auto

lemma overflows_here:
  assumes "0 < p" "p \<le> n" "2 ^ 31 \<le> p + lowbit p"
  shows "overflows n p"
  unfolding overflows_iff covers_def using assms lowbit_props [OF assms(1)]
  by (intro exI [of _ p]) simp

lemma not_overflows_above: "n < p \<Longrightarrow> \<not> overflows n p"
  by (auto simp: overflows_iff covers_def)

lemma add_covering_above:
  assumes "int (length t) \<le> p"
  shows "add_covering t p d = t"
proof -
  have "map (\<lambda>i. if covers (int i) p then t ! i + d else t ! i) [0..<length t] = map ((!) t) [0..<length t]"
    using assms by (intro map_cong) (auto simp: covers_def)
  then show ?thesis by (simp add: add_covering_def map_nth)
qed

lemma add_covering_step:
  assumes "0 < p" "p < int (length t)"
  shows "add_covering (t[nat p := t ! nat p + d]) (p + lowbit p) d = add_covering t p d"
proof -
  have lb: "0 < lowbit p" using lowbit_props [OF assms(1)] by simp
  have "(if covers (int i) (p + lowbit p) then t[nat p := t ! nat p + d] ! i + d
         else t[nat p := t ! nat p + d] ! i)
      = (if covers (int i) p then t ! i + d else t ! i)" if "i < length t" for i
  proof (cases "i = nat p")
    case True
    then have ip: "int i = p" using assms by simp
    have "\<not> covers p (p + lowbit p)" using lb by (simp add: covers_def)
    moreover have "covers p p" using lb by (simp add: covers_def)
    ultimately show ?thesis using True that ip by simp
  next
    case False
    then have "int i \<noteq> p" using assms by auto
    then show ?thesis using False covers_step [OF assms(1), of "int i"] by simp
  qed
  then show ?thesis by (simp add: add_covering_def)
qed

lemma update_loop_closed:
  assumes "well_formed s" "0 < sint idx"
  shows "update_loop s idx d =
    (if overflows (sint (size_f s)) (sint idx) then Some (Inl OutOfBounds)
     else Some (Inr (s\<lparr>tree_f := add_covering (tree_f s) (sint idx) d\<rparr>)))"
  using assms
proof (induction "nat (sint (size_f s) + 1 - sint idx)" arbitrary: s idx rule: less_induct)
  case less
  let ?n = "sint (size_f s)" and ?p = "sint idx"
  have len: "int (length (tree_f s)) = ?n + 1" using less.prems by (simp add: well_formed_def)
  show ?case
  proof (cases "?p \<le> ?n")
    case False
    then have "update_loop s idx d = Some (Inr s)"
      by (subst update_loop.simps) (simp add: word_sle_eq)
    moreover have "\<not> overflows ?n ?p" using False by (simp add: not_overflows_above)
    moreover have "add_covering (tree_f s) ?p d = tree_f s"
      using False len by (simp add: add_covering_above)
    ultimately show ?thesis by simp
  next
    case True
    let ?s1 = "s\<lparr>tree_f := (tree_f s)[nat ?p := tree_f s ! nat ?p + d]\<rparr>"
    let ?i1 = "idx + (idx AND - idx)"
    have inb: "nat ?p < length (tree_f s)" using True less.prems(2) len by linarith
    have step: "update_loop s idx d = update_loop ?s1 ?i1 d"
      using True less.prems(2) inb by (subst update_loop.simps) (simp add: word_sle_eq)
    have wf1: "well_formed ?s1" using less.prems(1) by (simp add: well_formed_def)
    show ?thesis
    proof (cases "?p + lowbit ?p < 2 ^ 31")
      case False
      then have neg: "sint ?i1 < 0"
        using sint_update_step_overflow [OF less.prems(2)] by simp
      have "0 \<le> ?n" using less.prems(1) by (simp add: well_formed_def word_sle_eq)
      with neg have "update_loop ?s1 ?i1 d = Some (Inl OutOfBounds)"
        by (subst update_loop.simps) (simp add: word_sle_eq)
      moreover have "overflows ?n ?p"
        using overflows_here [OF less.prems(2) True] False by simp
      ultimately show ?thesis using step by simp
    next
      case nov: True
      have s1: "sint ?i1 = ?p + lowbit ?p"
        using sint_update_step [OF less.prems(2) nov] .
      have lb: "0 < lowbit ?p" using lowbit_props [OF less.prems(2)] by simp
      have "nat (sint (size_f ?s1) + 1 - sint ?i1) < nat (?n + 1 - ?p)"
        using s1 lb True by simp
      moreover have "0 < sint ?i1" using s1 lb less.prems(2) by simp
      ultimately have "update_loop ?s1 ?i1 d =
        (if overflows (sint (size_f ?s1)) (sint ?i1) then Some (Inl OutOfBounds)
         else Some (Inr (?s1\<lparr>tree_f := add_covering (tree_f ?s1) (sint ?i1) d\<rparr>)))"
        using less.hyps wf1 by blast
      moreover have "overflows ?n (?p + lowbit ?p) \<longleftrightarrow> overflows ?n ?p"
        using overflows_step [OF less.prems(2) True nov] .
      moreover have "add_covering ((tree_f s)[nat ?p := tree_f s ! nat ?p + d]) (?p + lowbit ?p) d
          = add_covering (tree_f s) ?p d"
        using add_covering_step [OF less.prems(2)] True len by simp
      ultimately show ?thesis using step s1 by simp
    qed
  qed
qed

section \<open>The invariant\<close>

lemma sum_fun_upd:
  fixes a :: "int \<Rightarrow> cint"
  assumes "finite S"
  shows "sum (a(j := a j + d)) S = sum a S + (if j \<in> S then d else 0)"
proof -
  have "sum (a(j := a j + d)) S = (\<Sum>k\<in>S. a k + (if k = j then d else 0))"
    by (intro sum.cong) auto
  also have "\<dots> = sum a S + (\<Sum>k\<in>S. if k = j then d else 0)"
    by (simp add: sum.distrib)
  also have "(\<Sum>k\<in>S. if k = j then d else 0) = (if j \<in> S then d else 0)"
    using assms by (simp add: sum.delta)
  finally show ?thesis .
qed

lemma sum_ivl_concat:
  fixes a :: "int \<Rightarrow> cint" and l m u :: int
  assumes "l \<le> m" "m \<le> u"
  shows "sum a {l..<m} + sum a {m..<u} = sum a {l..<u}"
proof -
  have "{l..<m} \<union> {m..<u} = {l..<u}" using assms by auto
  moreover have "{l..<m} \<inter> {m..<u} = {}" by auto
  ultimately show ?thesis
    using sum.union_disjoint [of "{l..<m}" "{m..<u}" a] by simp
qed

lemma nth_add_covering:
  "i < length t \<Longrightarrow> add_covering t p d ! i = (if covers (int i) p then t ! i + d else t ! i)"
  by (simp add: add_covering_def)

lemma length_add_covering: "length (add_covering t p d) = length t"
  by (simp add: add_covering_def)

lemma represents_add_covering:
  assumes "represents s a" "0 \<le> j" "j < sint (size_f s)"
  shows "represents (s\<lparr>tree_f := add_covering (tree_f s) (j + 1) d\<rparr>) (a(j := a j + d))"
proof -
  let ?t = "tree_f s" and ?n = "sint (size_f s)"
  have wf: "well_formed s" and z: "?t ! 0 = 0"
    and sl: "\<And>i. 0 < i \<Longrightarrow> i \<le> ?n \<Longrightarrow> ?t ! nat i = sum a {i - lowbit i..<i}"
    using assms(1) by (simp_all add: represents_def)
  have len: "int (length ?t) = ?n + 1" using wf by (simp add: well_formed_def)
  have "well_formed (s\<lparr>tree_f := add_covering ?t (j + 1) d\<rparr>)"
    using wf by (simp add: well_formed_def length_add_covering)
  moreover have "add_covering ?t (j + 1) d ! 0 = 0"
  proof -
    have "0 < length ?t" using len assms(2,3) by linarith
    then show ?thesis using assms(2) z by (simp add: nth_add_covering covers_def)
  qed
  moreover have "add_covering ?t (j + 1) d ! nat i = sum (a(j := a j + d)) {i - lowbit i..<i}"
    if "0 < i" "i \<le> ?n" for i
  proof -
    have "nat i < length ?t" using that len by linarith
    then have A: "add_covering ?t (j + 1) d ! nat i
        = (if covers i (j + 1) then ?t ! nat i + d else ?t ! nat i)"
      using that by (simp add: nth_add_covering)
    have C: "j \<in> {i - lowbit i..<i} \<longleftrightarrow> covers i (j + 1)"
      by (auto simp: covers_def)
    have U: "sum (a(j := a j + d)) {i - lowbit i..<i}
        = sum a {i - lowbit i..<i} + (if j \<in> {i - lowbit i..<i} then d else 0)"
      by (rule sum_fun_upd) simp
    show ?thesis unfolding A U C by (simp add: sl [OF that])
  qed
  ultimately show ?thesis by (simp add: represents_def)
qed

lemma no_overflow_small:
  assumes "n < 2 ^ 30" "0 < p"
  shows "\<not> overflows n p"
proof
  assume "overflows n p"
  then obtain q where q: "q \<le> n" "covers q p" "2 ^ 31 \<le> q + lowbit q"
    by (auto simp: overflows_iff)
  then have "0 < q" using assms(2) by (simp add: covers_def)
  then have "lowbit q \<le> q" using lowbit_props by simp
  with q(1,3) assms(1) show False by simp
qed

lemma sint_index_succ:
  fixes j n :: cint
  assumes "j <s n"
  shows "sint (j + 1) = sint j + 1"
proof -
  have "sint n < 2 ^ 31" using sint_lt [of n] by simp
  with assms have "sint j < 2 ^ 31 - 1" by (simp add: word_sless_alt)
  then show ?thesis by (rule sint_succ)
qed

lemma update_closed:
  assumes "well_formed s" "0 \<le>s j" "j <s size_f s"
  shows "update s j d =
    (if overflows (sint (size_f s)) (sint j + 1) then Some (Inl OutOfBounds)
     else Some (Inr (s\<lparr>tree_f := add_covering (tree_f s) (sint j + 1) d\<rparr>)))"
proof -
  have "sint (j + 1) = sint j + 1" using assms(3) by (rule sint_index_succ)
  moreover have "0 \<le> sint j" using assms(2) by (simp add: word_sle_eq)
  ultimately show ?thesis
    using update_loop_closed [OF assms(1), of "j + 1" d] by (simp add: update_def)
qed

lemma update_represents:
  assumes "represents s a" "0 \<le>s j" "j <s size_f s" "update s j d = Some (Inr s')"
  shows "represents s' (a(sint j := a (sint j) + d))"
proof -
  have wf: "well_formed s" using assms(1) by (simp add: represents_def)
  have "s' = s\<lparr>tree_f := add_covering (tree_f s) (sint j + 1) d\<rparr>"
    using assms(4) update_closed [OF wf assms(2,3), of d] by (simp split: if_splits)
  then show ?thesis
    using represents_add_covering [OF assms(1), of "sint j" d] assms(2,3)
    by (simp add: word_sle_eq word_sless_alt)
qed

lemma query_loop_sum:
  assumes "represents s a" "0 \<le> sint idx" "sint idx \<le> sint (size_f s)"
  shows "query_loop s idx sm = Some (Inr (sm + sum a {0..<sint idx}))"
  using assms(2,3)
proof (induction "nat (sint idx)" arbitrary: idx sm rule: less_induct)
  case less
  let ?p = "sint idx"
  show ?case
  proof (cases "0 < ?p")
    case False
    with less.prems have "?p = 0" by simp
    then show ?thesis by (subst query_loop.simps) (simp add: word_sless_alt)
  next
    case True
    have wf: "well_formed s" using assms(1) by (simp add: represents_def)
    then have inb: "nat ?p < length (tree_f s)"
      using less.prems True by (simp add: well_formed_def) linarith
    let ?i1 = "idx - (idx AND - idx)"
    have s1: "sint ?i1 = ?p - lowbit ?p" using sint_query_step [OF True] .
    have lb: "0 < lowbit ?p" "lowbit ?p \<le> ?p" using lowbit_props [OF True] by auto
    have slot: "tree_f s ! nat ?p = sum a {?p - lowbit ?p..<?p}"
      using assms(1) True less.prems by (simp add: represents_def)
    have "query_loop s idx sm = query_loop s ?i1 (sm + tree_f s ! nat ?p)"
      using True inb by (subst query_loop.simps) (simp add: word_sless_alt)
    also have "\<dots> = Some (Inr (sm + tree_f s ! nat ?p + sum a {0..<sint ?i1}))"
      using less.hyps [of ?i1] s1 lb less.prems True by simp
    also have "sum a {0..<sint ?i1} + sum a {?p - lowbit ?p..<?p} = sum a {0..<?p}"
      unfolding s1 using lb by (intro sum_ivl_concat) auto
    then have "sm + tree_f s ! nat ?p + sum a {0..<sint ?i1} = sm + sum a {0..<?p}"
      unfolding slot by (simp add: add.assoc add.commute)
    finally show ?thesis .
  qed
qed

section \<open>The constructor\<close>

lemma ctor_closed:
  assumes "0 \<le>s n"
  shows "FenwickTree_ctor n =
    (if sint n < 2 ^ 31 - 1 then Inr \<lparr>size_f = n, tree_f = replicate (nat (sint n + 1)) 0\<rparr>
     else Inl LengthError)"
proof (cases "sint n < 2 ^ 31 - 1")
  case True
  then have "sint (n + 1) = sint n + 1" by (rule sint_succ)
  moreover have "0 \<le> sint n" using assms by (simp add: word_sle_eq)
  ultimately show ?thesis using True
    by (simp add: FenwickTree_ctor_def Let_def word_sless_alt)
next
  case False
  moreover have "sint n < 2 ^ 31" using sint_lt [of n] by simp
  ultimately have "sint n = 2 ^ 31 - 1" by simp
  then have "word_of_int (sint n) = (word_of_int (2 ^ 31 - 1) :: cint)" by simp
  then have "n = 2147483647" by simp
  then show ?thesis using False
    by (simp add: FenwickTree_ctor_def Let_def word_sless_alt)
qed

lemma ctor_well_formed:
  assumes "FenwickTree_ctor n = Inr s" "0 \<le>s n"
  shows "well_formed s" "size_f s = n" "tree_f s = replicate (nat (sint n + 1)) 0"
proof -
  have s: "s = \<lparr>size_f = n, tree_f = replicate (nat (sint n + 1)) 0\<rparr>"
    using assms ctor_closed [OF assms(2)] by (simp split: if_splits)
  have "0 \<le> sint n" using assms(2) by (simp add: word_sle_eq)
  then show "well_formed s" using assms(2) s by (simp add: well_formed_def)
  show "size_f s = n" "tree_f s = replicate (nat (sint n + 1)) 0" using s by simp_all
qed

lemma ctor_represents:
  assumes "FenwickTree_ctor n = Inr s" "0 \<le>s n"
  shows "represents s (elem_of [])"
proof -
  note c = ctor_well_formed [OF assms]
  have "0 \<le> sint n" using assms(2) by (simp add: word_sle_eq)
  then have "tree_f s ! nat i = 0" if "0 \<le> i" "i \<le> sint n" for i
    using that c(3) by simp
  then show ?thesis using c \<open>0 \<le> sint n\<close> by (simp add: represents_def elem_of_def)
qed

section \<open>Histories\<close>

lemma elem_of_Cons:
  "elem_of ((j, d) # ops) = (elem_of ops)(sint j := elem_of ops (sint j) + d)"
  by (rule ext) (simp add: elem_of_def)

lemma elem_of_snoc:
  "elem_of (ops @ [(j, d)]) = (elem_of ops)(sint j := elem_of ops (sint j) + d)"
  by (rule ext) (simp add: elem_of_def)

lemma sum_elem_of:
  assumes "\<forall>(j, d)\<in>set ops. 0 \<le>s j"
  shows "sum (elem_of ops) {0..<sint k + 1} = prefix_sum ops k"
  using assms
proof (induction ops)
  case Nil
  show ?case by (simp add: elem_of_def prefix_sum_def)
next
  case (Cons x ops)
  obtain j d where x: "x = (j, d)" by (cases x)
  have j: "0 \<le> sint j" using Cons.prems x by (simp add: word_sle_eq)
  have "sum (elem_of (x # ops)) {0..<sint k + 1}
      = sum (elem_of ops) {0..<sint k + 1} + (if sint j \<in> {0..<sint k + 1} then d else 0)"
    unfolding x elem_of_Cons by (rule sum_fun_upd) simp
  also have "sum (elem_of ops) {0..<sint k + 1} = prefix_sum ops k"
    using Cons by simp
  finally show ?case using j x by (simp add: prefix_sum_def word_sle_eq)
qed

lemma sint_sum_list:
  fixes ws :: "cint list"
  shows "sint (sum_list ws) = signed_take_bit 31 (sum_list (map sint ws))"
proof (induction ws)
  case Nil
  show ?case by simp
next
  case (Cons w ws)
  have st: "signed_take_bit 31 (sint w) = sint w"
    using sint_ge [of w] sint_lt [of w] by (intro signed_take_bit_int_eq_self) simp_all
  have "sint (w + sum_list ws) = signed_take_bit 31 (sint w + sint (sum_list ws))"
    by (simp add: sint_word_add)
  also have "\<dots> = signed_take_bit 31 (signed_take_bit 31 (sint w) + signed_take_bit 31 (sum_list (map sint ws)))"
    using Cons st by simp
  also have "\<dots> = signed_take_bit 31 (sint w + sum_list (map sint ws))"
    by (rule signed_take_bit_add)
  finally show ?case by simp
qed

lemma sint_prefix_sum:
  assumes "- (2 ^ 31) \<le> prefix_sum_int ops k" "prefix_sum_int ops k < 2 ^ 31"
  shows "sint (prefix_sum ops k) = prefix_sum_int ops k"
proof -
  have "(sint \<circ> snd) = (\<lambda>(j :: cint, d :: cint). sint d)"
    by (simp add: fun_eq_iff)
  then have "sint (prefix_sum ops k) = signed_take_bit 31 (prefix_sum_int ops k)"
    unfolding prefix_sum_def prefix_sum_int_def sint_sum_list by simp
  then show ?thesis using assms by (simp add: signed_take_bit_int_eq_self)
qed

section \<open>Calls of update\<close>

lemma update_returns:
  assumes "well_formed s" "in_range s j"
  shows "\<exists>r. update s j d = Some r"
  using update_closed [OF assms(1), of j d] assms(2) by (simp add: in_range_def)

lemma update_succeeds:
  assumes "well_formed s" "in_range s j" "sint (size_f s) < 2 ^ 30"
  shows "update s j d = Some (Inr (s\<lparr>tree_f := add_covering (tree_f s) (sint j + 1) d\<rparr>))"
proof -
  have "0 < sint j + 1" using assms(2) by (simp add: in_range_def word_sle_eq)
  then have "\<not> overflows (sint (size_f s)) (sint j + 1)"
    using assms(3) by (intro no_overflow_small)
  then show ?thesis
    using update_closed [OF assms(1), of j d] assms(2) by (simp add: in_range_def)
qed

lemma update_Inr:
  assumes "well_formed s" "in_range s j" "update s j d = Some (Inr s')"
  shows "s' = s\<lparr>tree_f := add_covering (tree_f s) (sint j + 1) d\<rparr>"
    and "well_formed s'" and "size_f s' = size_f s"
proof -
  show s': "s' = s\<lparr>tree_f := add_covering (tree_f s) (sint j + 1) d\<rparr>"
    using update_closed [OF assms(1), of j d] assms(2,3)
    by (simp add: in_range_def split: if_splits)
  show "well_formed s'" using assms(1) s' by (simp add: well_formed_def length_add_covering)
  show "size_f s' = size_f s" using s' by simp
qed

lemma update_all_represents:
  assumes "represents s (elem_of done)" "\<forall>(j, d)\<in>set ops. in_range s j"
    "update_all s ops = Some (Inr s')"
  shows "represents s' (elem_of (done @ ops)) \<and> size_f s' = size_f s"
  using assms
proof (induction ops arbitrary: s "done")
  case Nil
  then show ?case by simp
next
  case (Cons x ops)
  obtain j d where x: "x = (j, d)" by (cases x)
  from Cons.prems(3) obtain s1 where
    s1: "update s j d = Some (Inr s1)" and rest: "update_all s1 ops = Some (Inr s')"
    unfolding x by (auto simp: then_do_def split: option.splits sum.splits)
  have jr: "in_range s j" using Cons.prems(2) x by simp
  have wf: "well_formed s" using Cons.prems(1) by (simp add: represents_def)
  have sz: "size_f s1 = size_f s" using update_Inr(3) [OF wf jr s1] .
  have "represents s1 (elem_of (done @ [(j, d)]))"
    unfolding elem_of_snoc using update_represents [OF Cons.prems(1) _ _ s1] jr
    by (simp add: in_range_def)
  moreover have "\<forall>(j, d)\<in>set ops. in_range s1 j"
    using Cons.prems(2) sz by (auto simp: in_range_def)
  ultimately have "represents s' (elem_of ((done @ [(j, d)]) @ ops)) \<and> size_f s' = size_f s1"
    using rest by (intro Cons.IH)
  then show ?case using sz x by simp
qed

lemma update_all_succeeds:
  assumes "well_formed s" "\<forall>(j, d)\<in>set ops. in_range s j" "sint (size_f s) < 2 ^ 30"
  shows "\<exists>s'. update_all s ops = Some (Inr s')"
  using assms
proof (induction ops arbitrary: s)
  case Nil
  show ?case by simp
next
  case (Cons x ops)
  obtain j d where x: "x = (j, d)" by (cases x)
  have jr: "in_range s j" using Cons.prems(2) x by simp
  let ?s1 = "s\<lparr>tree_f := add_covering (tree_f s) (sint j + 1) d\<rparr>"
  have s1: "update s j d = Some (Inr ?s1)"
    using update_succeeds [OF Cons.prems(1) jr Cons.prems(3)] .
  have "well_formed ?s1" using update_Inr(2) [OF Cons.prems(1) jr s1] .
  moreover have "\<forall>(j, d)\<in>set ops. in_range ?s1 j"
    using Cons.prems(2) by (auto simp: in_range_def)
  moreover have "sint (size_f ?s1) < 2 ^ 30" using Cons.prems(3) by simp
  ultimately have "\<exists>s'. update_all ?s1 ops = Some (Inr s')" by (rule Cons.IH)
  then show ?case using s1 x by (simp add: then_do_def)
qed

section \<open>Calls of query\<close>

lemma query_represents:
  assumes "represents s a" "in_range s k"
  shows "query s k = Some (Inr (sum a {0..<sint k + 1}, s))"
proof -
  have k1: "sint (k + 1) = sint k + 1"
    using assms(2) by (intro sint_index_succ [of k "size_f s"]) (simp add: in_range_def)
  have "query_loop s (k + 1) 0 = Some (Inr (0 + sum a {0..<sint (k + 1)}))"
    using assms(2) k1
    by (intro query_loop_sum [OF assms(1)]) (simp_all add: in_range_def word_sle_eq word_sless_alt)
  then show ?thesis using k1 by (simp add: query_def)
qed

lemma query_loop_returns:
  assumes "well_formed s" "sint idx \<le> sint (size_f s)"
  shows "\<exists>v. query_loop s idx sm = Some (Inr v)"
  using assms(2)
proof (induction "nat (sint idx)" arbitrary: idx sm rule: less_induct)
  case less
  let ?p = "sint idx"
  show ?case
  proof (cases "0 < ?p")
    case False
    then show ?thesis by (subst query_loop.simps) (simp add: word_sless_alt)
  next
    case True
    have inb: "nat ?p < length (tree_f s)"
      using assms(1) less.prems True by (simp add: well_formed_def) linarith
    let ?i1 = "idx - (idx AND - idx)"
    have s1: "sint ?i1 = ?p - lowbit ?p" using sint_query_step [OF True] .
    have lb: "0 < lowbit ?p" "lowbit ?p \<le> ?p" using lowbit_props [OF True] by auto
    have "query_loop s idx sm = query_loop s ?i1 (sm + tree_f s ! nat ?p)"
      using True inb by (subst query_loop.simps) (simp add: word_sless_alt)
    moreover have "\<exists>v. query_loop s ?i1 (sm + tree_f s ! nat ?p) = Some (Inr v)"
      using less.hyps [of ?i1] s1 lb less.prems True by simp
    ultimately show ?thesis by simp
  qed
qed

lemma query_loop_cong:
  assumes "length (tree_f s) = length (tree_f s')"
    and "\<And>i. i < length (tree_f s) \<Longrightarrow> int i \<le> sint idx \<Longrightarrow> tree_f s ! i = tree_f s' ! i"
  shows "query_loop s idx sm = query_loop s' idx sm"
  using assms(2)
proof (induction "nat (sint idx)" arbitrary: idx sm rule: less_induct)
  case less
  let ?p = "sint idx"
  show ?case
  proof (cases "0 < ?p \<and> nat ?p < length (tree_f s)")
    case False
    then show ?thesis using assms(1)
      by (subst query_loop.simps, subst (2) query_loop.simps) (auto simp: word_sless_alt)
  next
    case True
    let ?i1 = "idx - (idx AND - idx)"
    have s1: "sint ?i1 = ?p - lowbit ?p" using sint_query_step True by simp
    have lb: "0 < lowbit ?p" "lowbit ?p \<le> ?p" using lowbit_props True by auto
    have same: "tree_f s ! nat ?p = tree_f s' ! nat ?p"
      using less.prems [of "nat ?p"] True by simp
    have "query_loop s idx sm = query_loop s ?i1 (sm + tree_f s ! nat ?p)"
      using True by (subst query_loop.simps) (simp add: word_sless_alt)
    also have "\<dots> = query_loop s' ?i1 (sm + tree_f s ! nat ?p)"
      using less.hyps [of ?i1] s1 lb less.prems True by simp
    also have "\<dots> = query_loop s' idx sm"
      using True assms(1) same by (subst (2) query_loop.simps) (simp add: word_sless_alt)
    finally show ?thesis .
  qed
qed

lemma query_returns:
  assumes "well_formed s" "in_range s k"
  shows "\<exists>v. query s k = Some (Inr (v, s))"
proof -
  have "sint (k + 1) = sint k + 1"
    using assms(2) by (intro sint_index_succ [of k "size_f s"]) (simp add: in_range_def)
  then have "sint (k + 1) \<le> sint (size_f s)"
    using assms(2) by (simp add: in_range_def word_sless_alt)
  then obtain v where "query_loop s (k + 1) 0 = Some (Inr v)"
    using query_loop_returns [OF assms(1)] by blast
  then show ?thesis by (simp add: query_def)
qed

lemma query_unchanged:
  assumes "query s k = Some (Inr (v, s'))"
  shows "s' = s"
  using assms by (auto simp: query_def split: option.splits sum.splits)

lemma query_after_update:
  assumes "well_formed s" "in_range s j" "0 \<le>s k" "k <s j"
    and "update s j d = Some (Inr s')" "query s k = Some (Inr (v, s))"
  shows "query s' k = Some (Inr (v, s'))"
proof -
  note u = update_Inr [OF assms(1,2,5)]
  have k1: "sint (k + 1) = sint k + 1" using assms(4) by (rule sint_index_succ)
  have kj: "sint k < sint j" using assms(4) by (simp add: word_sless_alt)
  have "tree_f s ! i = tree_f s' ! i" if "i < length (tree_f s)" "int i \<le> sint (k + 1)" for i
  proof -
    have "\<not> covers (int i) (sint j + 1)" using that(2) k1 kj by (simp add: covers_def)
    then show ?thesis using that(1) u(1) by (simp add: nth_add_covering)
  qed
  moreover have "length (tree_f s) = length (tree_f s')"
    using u(1) by (simp add: length_add_covering)
  ultimately have "query_loop s (k + 1) 0 = query_loop s' (k + 1) 0"
    by (intro query_loop_cong)
  then show ?thesis using assms(6)
    by (auto simp: query_def split: option.splits sum.splits)
qed

section \<open>Repeated and out-of-range calls\<close>

lemma add_covering_twice:
  "add_covering (add_covering t p d) p d = add_covering t p (2 * d)"
proof (rule nth_equalityI)
  show "length (add_covering (add_covering t p d) p d) = length (add_covering t p (2 * d))"
    by (simp add: length_add_covering)
next
  fix i assume "i < length (add_covering (add_covering t p d) p d)"
  then have "i < length t" by (simp add: length_add_covering)
  then show "add_covering (add_covering t p d) p d ! i = add_covering t p (2 * d) ! i"
    by (simp add: nth_add_covering length_add_covering)
qed

lemma update_twice:
  assumes "well_formed s" "in_range s j"
  shows "then_do (update s j d) (\<lambda>s1. update s1 j d) = update s j (2 * d)"
proof (cases "overflows (sint (size_f s)) (sint j + 1)")
  case True
  then show ?thesis
    using update_closed [OF assms(1), of j] assms(2) by (simp add: in_range_def then_do_def)
next
  case False
  let ?s1 = "s\<lparr>tree_f := add_covering (tree_f s) (sint j + 1) d\<rparr>"
  have u: "update s j e = Some (Inr (s\<lparr>tree_f := add_covering (tree_f s) (sint j + 1) e\<rparr>))" for e
    using update_closed [OF assms(1), of j e] assms(2) False by (simp add: in_range_def)
  have w1: "well_formed ?s1" using assms(1) by (simp add: well_formed_def length_add_covering)
  have "update ?s1 j d = Some (Inr (?s1\<lparr>tree_f := add_covering (tree_f ?s1) (sint j + 1) d\<rparr>))"
    using update_closed [OF w1, of j d] assms(2) False by (simp add: in_range_def)
  then show ?thesis using u by (simp add: then_do_def add_covering_twice)
qed

lemma update_above:
  assumes "size_f s \<le>s index" "sint index < 2 ^ 31 - 1"
  shows "update s index delta = Some (Inr s)"
proof -
  have "sint (index + 1) = sint index + 1" using assms(2) by (rule sint_succ)
  then have "\<not> index + 1 \<le>s size_f s" using assms(1) by (simp add: word_sle_eq)
  then show ?thesis unfolding update_def by (subst update_loop.simps) simp
qed

lemma lowbit_2_30: "lowbit 1073741824 = 1073741824"
  by (simp add: lowbit_def)

lemma query_negative:
  assumes "index <s 0"
  shows "query s index = Some (Inr (0, s))"
proof -
  have "sint index < 0" using assms by (simp add: word_sless_alt)
  then have "sint (index + 1) = sint index + 1" by (intro sint_succ) simp
  with \<open>sint index < 0\<close> have "\<not> 0 <s index + 1" by (simp add: word_sless_alt)
  then have "query_loop s (index + 1) 0 = Some (Inr 0)"
    by (subst query_loop.simps) simp
  then show ?thesis by (simp add: query_def)
qed

lemma query_above:
  assumes "well_formed s" "size_f s \<le>s index" "sint index < 2 ^ 31 - 1"
  shows "query s index = Some (Inl OutOfBounds)"
proof -
  have s1: "sint (index + 1) = sint index + 1" using assms(3) by (rule sint_succ)
  have "0 \<le> sint (size_f s)" "sint (size_f s) \<le> sint index"
    using assms(1,2) by (simp_all add: well_formed_def word_sle_eq)
  moreover have "int (length (tree_f s)) = sint (size_f s) + 1"
    using assms(1) by (simp add: well_formed_def)
  ultimately have "0 <s index + 1" "\<not> nat (sint (index + 1)) < length (tree_f s)"
    using s1 by (simp_all add: word_sless_alt)
  then have "query_loop s (index + 1) 0 = Some (Inl OutOfBounds)"
    by (subst query_loop.simps) simp
  then show ?thesis by (simp add: query_def)
qed

lemma update_below:
  assumes "0 \<le>s size_f s" "index <s - 1"
  shows "update s index delta = Some (Inl OutOfBounds)"
proof -
  have "sint index < - 1" using assms(2) by (simp add: word_sless_alt)
  then have "sint (index + 1) = sint index + 1" by (intro sint_succ) simp
  with \<open>sint index < - 1\<close> have "sint (index + 1) < 0" by simp
  moreover have "0 \<le> sint (size_f s)" using assms(1) by (simp add: word_sle_eq)
  ultimately have "index + 1 \<le>s size_f s" "\<not> 0 \<le>s index + 1"
    by (simp_all add: word_sle_eq)
  then show ?thesis unfolding update_def by (subst update_loop.simps) simp
qed

lemma ctor_below:
  assumes "n <s - 1"
  shows "FenwickTree_ctor n = Inl LengthError"
proof -
  have "sint n < - 1" using assms by (simp add: word_sless_alt)
  then have "sint (n + 1) = sint n + 1" by (intro sint_succ) simp
  with \<open>sint n < - 1\<close> have "n + 1 <s 0" by (simp add: word_sless_alt)
  then show ?thesis by (simp add: FenwickTree_ctor_def)
qed

lemma update_loop_zero_diverges:
  assumes "update_loop s index delta = Some r"
  shows "\<not> (index = 0 \<and> 0 \<le>s size_f s \<and> tree_f s \<noteq> [])"
  using assms
proof (induction rule: update_loop.raw_induct [rotated 1, consumes 1, case_names step])
  case (step f s index delta r)
  show ?case
  proof
    assume a: "index = 0 \<and> 0 \<le>s size_f s \<and> tree_f s \<noteq> []"
    then have "f (s\<lparr>tree_f := (tree_f s)[0 := tree_f s ! 0 + delta]\<rparr>) 0 delta = Some r"
      using step(2) by simp
    from step(1) [OF this] a show False by simp
  qed
qed

lemma update_minus_one:
  assumes "well_formed s"
  shows "update s (- 1) delta = None"
proof -
  have "0 \<le>s size_f s" "tree_f s \<noteq> []"
    using assms by (auto simp: well_formed_def word_sle_eq)
  then have "update_loop s 0 delta \<noteq> Some r" for r
    using update_loop_zero_diverges [of s 0 delta r] by blast
  then have "update_loop s 0 delta = None" by (cases "update_loop s 0 delta") auto
  then show ?thesis by (simp add: update_def)
qed

section \<open>The claims\<close>

subsection \<open>C1: a query returns the sum of the earlier deltas\<close>

text \<open>
  Claim C1. For every store of capacity \<open>n\<close> and every finite sequence \<open>ops\<close> of calls of
  \<open>update\<close> with indices in \<open>0 \<le> j < n\<close>, a subsequent \<open>query(k)\<close> with \<open>0 \<le> k < n\<close> returns
  exactly the sum of \<open>delta\<close> over every prior \<open>update(j, delta)\<close> with \<open>j \<le> k\<close>. The calls of
  \<open>update\<close> all return when the capacity is below \<open>2^30\<close>, and whenever they all return the
  query returns that sum. The sum is a sum of \<open>int\<close> values, \<open>prefix_sum\<close>; it is the sum on the
  integers, \<open>prefix_sum_int\<close>, whenever that one lies in the range of \<open>int\<close>.
\<close>

theorem additivity:
  assumes "FenwickTree_ctor n = Inr s0"
    and "\<forall>(j, d)\<in>set ops. 0 \<le>s j \<and> j <s n"
    and "0 \<le>s k" and "k <s n"
  shows "(sint n < 2 ^ 30 \<longrightarrow> (\<exists>s. update_all s0 ops = Some (Inr s)))
       \<and> (\<forall>s. update_all s0 ops = Some (Inr s) \<longrightarrow>
             query s k = Some (Inr (prefix_sum ops k, s)))
       \<and> (- (2 ^ 31) \<le> prefix_sum_int ops k \<and> prefix_sum_int ops k < 2 ^ 31 \<longrightarrow>
             sint (prefix_sum ops k) = prefix_sum_int ops k)"
proof -
  have n0: "0 \<le>s n" using assms(3,4) by (simp add: word_sle_eq word_sless_alt)
  note c = ctor_well_formed [OF assms(1) n0]
  have r0: "represents s0 (elem_of [])" using ctor_represents [OF assms(1) n0] .
  have rng: "\<forall>(j, d)\<in>set ops. in_range s0 j"
    using assms(2) c(2) by (simp add: in_range_def)
  have nonneg: "\<forall>(j, d)\<in>set ops. 0 \<le>s j" using assms(2) by auto
  have "\<exists>s. update_all s0 ops = Some (Inr s)" if "sint n < 2 ^ 30"
    using update_all_succeeds [OF c(1) rng] that c(2) by simp
  moreover have "query s k = Some (Inr (prefix_sum ops k, s))"
    if run: "update_all s0 ops = Some (Inr s)" for s
  proof -
    have "represents s (elem_of ([] @ ops)) \<and> size_f s = size_f s0"
      using update_all_represents [OF r0 rng run] .
    then have r: "represents s (elem_of ops)" and "in_range s k"
      using assms(3,4) c(2) by (simp_all add: in_range_def)
    then have "query s k = Some (Inr (sum (elem_of ops) {0..<sint k + 1}, s))"
      by (rule query_represents)
    then show ?thesis using sum_elem_of [OF nonneg, of k] by simp
  qed
  moreover have "sint (prefix_sum ops k) = prefix_sum_int ops k"
    if "- (2 ^ 31) \<le> prefix_sum_int ops k \<and> prefix_sum_int ops k < 2 ^ 31"
    using that by (simp add: sint_prefix_sum)
  ultimately show ?thesis by blast
qed

theorem additivity_witness:
  "FenwickTree_ctor 5 = Inr \<lparr>size_f = 5, tree_f = [0, 0, 0, 0, 0, 0]\<rparr>
   \<and> update_all \<lparr>size_f = 5, tree_f = [0, 0, 0, 0, 0, 0]\<rparr> [(0, 1), (1, 2), (2, 3), (0, 4)]
       = Some (Inr \<lparr>size_f = 5, tree_f = [0, 5, 7, 3, 10, 0]\<rparr>)
   \<and> query \<lparr>size_f = 5, tree_f = [0, 5, 7, 3, 10, 0]\<rparr> 1
       = Some (Inr (prefix_sum [(0, 1), (1, 2), (2, 3), (0, 4)] 1,
                    \<lparr>size_f = 5, tree_f = [0, 5, 7, 3, 10, 0]\<rparr>))
   \<and> prefix_sum [(0, 1), (1, 2), (2, 3), (0, 4)] 1 = 7
   \<and> sint (prefix_sum [(0, 1), (1, 2), (2, 3), (0, 4)] 1)
       = prefix_sum_int [(0, 1), (1, 2), (2, 3), (0, 4)] 1"
proof -
  let ?s0 = "\<lparr>size_f = 5, tree_f = [0, 0, 0, 0, 0, 0 :: cint]\<rparr>"
  let ?ops = "[(0, 1), (1, 2), (2, 3), (0, 4)] :: (cint \<times> cint) list"
  have c: "FenwickTree_ctor 5 = Inr ?s0" by code_simp
  have r: "\<forall>(j, d)\<in>set ?ops. 0 \<le>s j \<and> j <s 5" by (simp add: word_sle_eq word_sless_alt)
  have k: "(0 :: cint) \<le>s 1" "(1 :: cint) <s 5" by (simp_all add: word_sle_eq word_sless_alt)
  have run: "update_all ?s0 ?ops = Some (Inr \<lparr>size_f = 5, tree_f = [0, 5, 7, 3, 10, 0]\<rparr>)"
    by code_simp
  have p: "prefix_sum ?ops 1 = 7" by code_simp
  have i: "- (2 ^ 31) \<le> prefix_sum_int ?ops 1 \<and> prefix_sum_int ?ops 1 < 2 ^ 31"
    by (simp add: prefix_sum_int_def word_sle_eq)
  from additivity [OF c r k] run i
  have "query \<lparr>size_f = 5, tree_f = [0, 5, 7, 3, 10, 0]\<rparr> 1
       = Some (Inr (prefix_sum ?ops 1, \<lparr>size_f = 5, tree_f = [0, 5, 7, 3, 10, 0]\<rparr>))"
    and "sint (prefix_sum ?ops 1) = prefix_sum_int ?ops 1"
    by blast+
  with c run p show ?thesis by blast
qed

subsection \<open>C2: the fresh store\<close>

text \<open>
  Claim C2. For every capacity \<open>n \<ge> 0\<close> and every \<open>k\<close> with \<open>0 \<le> k < n\<close>, a freshly
  constructed store of capacity \<open>n\<close>, with no call of \<open>update\<close> made, returns \<open>query(k) = 0\<close>.
  The constructor returns a store for every capacity from 0 to \<open>2^31 - 2\<close>.
\<close>

theorem zero_state:
  assumes "0 \<le>s k" and "k <s n"
  shows "(sint n < 2 ^ 31 - 1 \<longrightarrow> (\<exists>s. FenwickTree_ctor n = Inr s))
       \<and> (\<forall>s. FenwickTree_ctor n = Inr s \<longrightarrow> query s k = Some (Inr (0, s)))"
proof -
  have n0: "0 \<le>s n" using assms by (simp add: word_sle_eq word_sless_alt)
  have "\<exists>s. FenwickTree_ctor n = Inr s" if "sint n < 2 ^ 31 - 1"
    using ctor_closed [OF n0] that by simp
  moreover have "query s k = Some (Inr (0, s))" if c: "FenwickTree_ctor n = Inr s" for s
  proof -
    have "represents s (elem_of [])" using ctor_represents [OF c n0] .
    moreover have "in_range s k"
      using assms ctor_well_formed(2) [OF c n0] by (simp add: in_range_def)
    ultimately have "query s k = Some (Inr (sum (elem_of []) {0..<sint k + 1}, s))"
      by (rule query_represents)
    then show ?thesis by (simp add: elem_of_def)
  qed
  ultimately show ?thesis by blast
qed

theorem zero_state_witness:
  "FenwickTree_ctor 4 = Inr \<lparr>size_f = 4, tree_f = [0, 0, 0, 0, 0]\<rparr>
   \<and> query \<lparr>size_f = 4, tree_f = [0, 0, 0, 0, 0]\<rparr> 3
       = Some (Inr (0, \<lparr>size_f = 4, tree_f = [0, 0, 0, 0, 0]\<rparr>))"
proof -
  have k: "(0 :: cint) \<le>s 3" "(3 :: cint) <s 4" by (simp_all add: word_sle_eq word_sless_alt)
  have c: "FenwickTree_ctor 4 = Inr \<lparr>size_f = 4, tree_f = [0, 0, 0, 0, 0]\<rparr>" by code_simp
  with zero_state [OF k] show ?thesis by blast
qed

subsection \<open>C3: an update leaves the queries below its index alone\<close>

text \<open>
  Claim C3. For every store, every in-range index \<open>j\<close>, every \<open>delta\<close> and every \<open>k\<close> with
  \<open>0 \<le> k < j\<close>, the call \<open>update(j, delta)\<close> does not change the value that \<open>query(k)\<close>
  returns. The call of \<open>update\<close> returns when the capacity is below \<open>2^30\<close>, and whenever it
  returns, \<open>query(k)\<close> returns the same value before and after it.
\<close>

theorem locality:
  assumes "well_formed s" and "in_range s j" and "0 \<le>s k" and "k <s j"
  shows "(sint (size_f s) < 2 ^ 30 \<longrightarrow> (\<exists>s'. update s j d = Some (Inr s')))
       \<and> (\<forall>s'. update s j d = Some (Inr s') \<longrightarrow>
             (\<exists>v. query s k = Some (Inr (v, s)) \<and> query s' k = Some (Inr (v, s'))))"
proof -
  have "in_range s k"
    using assms(2,3,4) by (simp add: in_range_def word_sless_alt)
  then obtain v where v: "query s k = Some (Inr (v, s))"
    using query_returns [OF assms(1)] by blast
  have "query s' k = Some (Inr (v, s'))" if "update s j d = Some (Inr s')" for s'
    using query_after_update [OF assms that v] .
  moreover have "\<exists>s'. update s j d = Some (Inr s')" if "sint (size_f s) < 2 ^ 30"
    using update_succeeds [OF assms(1,2) that] by simp
  ultimately show ?thesis using v by blast
qed

theorem locality_witness:
  "update \<lparr>size_f = 5, tree_f = [0, 1, 3, 0, 3, 0]\<rparr> 2 3
     = Some (Inr \<lparr>size_f = 5, tree_f = [0, 1, 3, 3, 6, 0]\<rparr>)
   \<and> (\<exists>v. query \<lparr>size_f = 5, tree_f = [0, 1, 3, 0, 3, 0]\<rparr> 1
            = Some (Inr (v, \<lparr>size_f = 5, tree_f = [0, 1, 3, 0, 3, 0]\<rparr>))
        \<and> query \<lparr>size_f = 5, tree_f = [0, 1, 3, 3, 6, 0]\<rparr> 1
            = Some (Inr (v, \<lparr>size_f = 5, tree_f = [0, 1, 3, 3, 6, 0]\<rparr>)))"
proof -
  let ?s = "\<lparr>size_f = 5, tree_f = [0, 1, 3, 0, 3, 0 :: cint]\<rparr>"
  have w: "well_formed ?s" by (simp add: well_formed_def word_sle_eq)
  have j: "in_range ?s 2" by (simp add: in_range_def word_sle_eq word_sless_alt)
  have k: "(0 :: cint) \<le>s 1" "(1 :: cint) <s 2" by (simp_all add: word_sle_eq word_sless_alt)
  have u: "update ?s 2 3 = Some (Inr \<lparr>size_f = 5, tree_f = [0, 1, 3, 3, 6, 0]\<rparr>)"
    by code_simp
  with locality [OF w j k, of 3] show ?thesis by blast
qed

subsection \<open>C4: two updates are one update of the double\<close>

text \<open>
  Claim C4. For every store, every in-range index \<open>j\<close> and every \<open>delta\<close>, two calls
  \<open>update(j, delta)\<close> leave a store that every query observes as it observes the store after
  the one call \<open>update(j, 2*delta)\<close>. The two runs have the same outcome, the same store when
  they return; they return when the capacity is below \<open>2^30\<close>.
\<close>

theorem double_update:
  assumes "well_formed s" and "in_range s j"
  shows "then_do (update s j d) (\<lambda>s1. update s1 j d) = update s j (2 * d)
       \<and> (sint (size_f s) < 2 ^ 30 \<longrightarrow> (\<exists>s3. update s j (2 * d) = Some (Inr s3)))
       \<and> (\<forall>s2 s3 k. then_do (update s j d) (\<lambda>s1. update s1 j d) = Some (Inr s2) \<longrightarrow>
             update s j (2 * d) = Some (Inr s3) \<longrightarrow> query s2 k = query s3 k)"
proof -
  have e: "then_do (update s j d) (\<lambda>s1. update s1 j d) = update s j (2 * d)"
    using update_twice [OF assms] .
  moreover have "\<exists>s3. update s j (2 * d) = Some (Inr s3)" if "sint (size_f s) < 2 ^ 30"
    using update_succeeds [OF assms that] by simp
  ultimately show ?thesis by auto
qed

theorem double_update_witness:
  "then_do (update \<lparr>size_f = 5, tree_f = [0, 1, 3, 0, 3, 0]\<rparr> 2 3)
           (\<lambda>s1. update s1 2 3)
     = update \<lparr>size_f = 5, tree_f = [0, 1, 3, 0, 3, 0]\<rparr> 2 (2 * 3)
   \<and> update \<lparr>size_f = 5, tree_f = [0, 1, 3, 0, 3, 0]\<rparr> 2 (2 * 3)
     = Some (Inr \<lparr>size_f = 5, tree_f = [0, 1, 3, 6, 9, 0]\<rparr>)"
proof -
  let ?s = "\<lparr>size_f = 5, tree_f = [0, 1, 3, 0, 3, 0 :: cint]\<rparr>"
  have w: "well_formed ?s" by (simp add: well_formed_def word_sle_eq)
  have j: "in_range ?s 2" by (simp add: in_range_def word_sle_eq word_sless_alt)
  have u: "update ?s 2 (2 * 3) = Some (Inr \<lparr>size_f = 5, tree_f = [0, 1, 3, 6, 9, 0]\<rparr>)"
    by code_simp
  from double_update [OF w j, of 3] u show ?thesis by blast
qed

subsection \<open>C5: range rejection\<close>

text \<open>
  Claim C5, as stated: \<open>update\<close> and \<open>query\<close> fail with an IndexOutOfRange error for every
  index below 0 or at or above the capacity, before any mutation, and construction fails with
  an InvalidArgument error for every negative capacity. The code checks nothing: on a store
  of capacity 5, \<open>query(-1)\<close> returns 0, \<open>update(7, 1)\<close> returns with the store as it was,
  and the constructor builds a store of capacity -1.
\<close>

theorem range_rejection_counterexample:
  "query \<lparr>size_f = 5, tree_f = [0, 1, 3, 0, 3, 0]\<rparr> (- 1)
     = Some (Inr (0, \<lparr>size_f = 5, tree_f = [0, 1, 3, 0, 3, 0]\<rparr>))
   \<and> update \<lparr>size_f = 5, tree_f = [0, 1, 3, 0, 3, 0]\<rparr> 7 1
     = Some (Inr \<lparr>size_f = 5, tree_f = [0, 1, 3, 0, 3, 0]\<rparr>)
   \<and> FenwickTree_ctor (- 1) = Inr \<lparr>size_f = - 1, tree_f = []\<rparr>"
  by (intro conjI; code_simp)

text \<open>
  Claim C5, amended: \<open>update\<close>, \<open>query\<close> and the constructor check no range and raise no
  IndexOutOfRange or InvalidArgument error. On a store of capacity \<open>N \<ge> 0\<close>: \<open>query(index)\<close>
  with \<open>index < 0\<close> returns 0; \<open>update(index, delta)\<close> with \<open>N \<le> index < 2^31 - 1\<close> returns and
  leaves the store unchanged; \<open>query(index)\<close> with \<open>N \<le> index < 2^31 - 1\<close> and
  \<open>update(index, delta)\<close> with \<open>index < -1\<close> subscript the accumulator sequence out of range at
  their first access, before any slot is written; \<open>update(-1, delta)\<close> never returns.
  Construction with the capacity -1 returns a store with an empty accumulator sequence, and
  construction with a capacity below -1 fails in the allocation of the vector.
\<close>

theorem no_range_check:
  assumes "well_formed s"
  shows "(index <s 0 \<longrightarrow> query s index = Some (Inr (0, s)))
       \<and> (size_f s \<le>s index \<and> sint index < 2 ^ 31 - 1 \<longrightarrow>
            update s index delta = Some (Inr s))
       \<and> (size_f s \<le>s index \<and> sint index < 2 ^ 31 - 1 \<longrightarrow>
            query s index = Some (Inl OutOfBounds))
       \<and> (index <s - 1 \<longrightarrow> update s index delta = Some (Inl OutOfBounds))
       \<and> update s (- 1) delta = None
       \<and> FenwickTree_ctor (- 1) = Inr \<lparr>size_f = - 1, tree_f = []\<rparr>
       \<and> (n <s - 1 \<longrightarrow> FenwickTree_ctor n = Inl LengthError)"
proof -
  have "0 \<le>s size_f s" using assms by (simp add: well_formed_def)
  then have "index <s - 1 \<longrightarrow> update s index delta = Some (Inl OutOfBounds)"
    by (simp add: update_below)
  moreover have "update s (- 1) delta = None" using assms by (rule update_minus_one)
  moreover have "FenwickTree_ctor (- 1) = Inr \<lparr>size_f = - 1, tree_f = []\<rparr>"
    by (simp add: FenwickTree_ctor_def)
  ultimately show ?thesis
    using assms by (simp add: query_negative update_above query_above ctor_below)
qed

theorem no_range_check_witness:
  "query \<lparr>size_f = 5, tree_f = [0, 1, 3, 0, 3, 0]\<rparr> (- 2)
     = Some (Inr (0, \<lparr>size_f = 5, tree_f = [0, 1, 3, 0, 3, 0]\<rparr>))
   \<and> update \<lparr>size_f = 5, tree_f = [0, 1, 3, 0, 3, 0]\<rparr> 5 1
     = Some (Inr \<lparr>size_f = 5, tree_f = [0, 1, 3, 0, 3, 0]\<rparr>)
   \<and> query \<lparr>size_f = 5, tree_f = [0, 1, 3, 0, 3, 0]\<rparr> 5 = Some (Inl OutOfBounds)
   \<and> update \<lparr>size_f = 5, tree_f = [0, 1, 3, 0, 3, 0]\<rparr> (- 2) 1 = Some (Inl OutOfBounds)
   \<and> update \<lparr>size_f = 5, tree_f = [0, 1, 3, 0, 3, 0]\<rparr> (- 1) 1 = None
   \<and> FenwickTree_ctor (- 2) = Inl LengthError"
proof -
  let ?s = "\<lparr>size_f = 5, tree_f = [0, 1, 3, 0, 3, 0 :: cint]\<rparr>"
  have w: "well_formed ?s" by (simp add: well_formed_def word_sle_eq)
  have a: "(- 2 :: cint) <s 0" "(- 2 :: cint) <s - 1"
    by (simp_all add: word_sless_alt)
  have b: "size_f ?s \<le>s 5 \<and> sint (5 :: cint) < 2 ^ 31 - 1"
    by (simp add: word_sle_eq)
  from no_range_check [OF w, of "- 2" 1 "- 2"] a
  have "query ?s (- 2) = Some (Inr (0, ?s))"
    "update ?s (- 2) 1 = Some (Inl OutOfBounds)"
    "update ?s (- 1) 1 = None"
    "FenwickTree_ctor (- 2) = Inl LengthError"
    by blast+
  moreover from no_range_check [OF w, of 5 1] b
  have "update ?s 5 1 = Some (Inr ?s)" "query ?s 5 = Some (Inl OutOfBounds)"
    by blast+
  ultimately show ?thesis by blast
qed

subsection \<open>C6: the structural invariant\<close>

text \<open>
  Claim C6, as stated: every operation preserves that the accumulator sequence has the
  length capacity + 1, that slot 0 is zero, and that each slot \<open>i\<close> in \<open>1..capacity\<close> is the
  sum of the logical elements whose 0-based indices lie in the half-open range
  \<open>(i - lowbit(i), i]\<close>. The range is off by one: on the fresh store of capacity 5 the call
  \<open>update(0, 1)\<close> adds 1 to the logical element 0 and to slot 1, whose range \<open>(0, 1]\<close> holds
  the index 1 only, an element that is still 0.
\<close>

theorem structural_invariant_counterexample:
  "update \<lparr>size_f = 5, tree_f = [0, 0, 0, 0, 0, 0]\<rparr> 0 1
     = Some (Inr \<lparr>size_f = 5, tree_f = [0, 1, 1, 0, 1, 0]\<rparr>)
   \<and> \<not> spec_represents \<lparr>size_f = 5, tree_f = [0, 1, 1, 0, 1, 0]\<rparr> (elem_of [(0, 1)])"
proof -
  let ?s1 = "\<lparr>size_f = 5, tree_f = [0, 1, 1, 0, 1, 0 :: cint]\<rparr>"
  have u: "update \<lparr>size_f = 5, tree_f = [0, 0, 0, 0, 0, 0]\<rparr> 0 1 = Some (Inr ?s1)"
    by code_simp
  have "{1 - lowbit 1<..1} = {1 :: int}" by (auto simp: lowbit_odd)
  then have "sum (elem_of [(0, 1)]) {1 - lowbit 1<..1} = 0"
    by (simp add: elem_of_def)
  moreover have "tree_f ?s1 ! nat 1 = 1" by simp
  moreover have "(1 :: int) \<in> {1..sint (size_f ?s1)}" by simp
  ultimately have "\<not> spec_represents ?s1 (elem_of [(0, 1)])"
    unfolding spec_represents_def by (metis zero_neq_one)
  with u show ?thesis by blast
qed

text \<open>
  Claim C6, amended: every operation preserves that the accumulator sequence has the length
  capacity + 1, that slot 0 is zero, and that each slot \<open>i\<close> in \<open>1..capacity\<close> is the sum of
  the logical elements whose 0-based indices lie in the half-open range
  \<open>[i - lowbit(i), i)\<close>, the 1-based positions \<open>(i - lowbit(i), i]\<close>. The constructor
  establishes it for the array of zeros, an in-range \<open>update(j, delta)\<close> that returns keeps
  it with \<open>delta\<close> added to the logical element \<open>j\<close> and changes neither the capacity nor the
  length, and \<open>query\<close> returns the store it was given. The update returns when the capacity
  is below \<open>2^30\<close>.
\<close>

theorem structural_invariant:
  "(0 \<le>s n \<longrightarrow> FenwickTree_ctor n = Inr s0 \<longrightarrow> represents s0 (elem_of []))
   \<and> (represents s (elem_of ops) \<longrightarrow> in_range s j \<longrightarrow> update s j d = Some (Inr s') \<longrightarrow>
        represents s' (elem_of (ops @ [(j, d)]))
        \<and> size_f s' = size_f s \<and> length (tree_f s') = length (tree_f s))
   \<and> (represents s (elem_of ops) \<longrightarrow> in_range s j \<longrightarrow> sint (size_f s) < 2 ^ 30 \<longrightarrow>
        (\<exists>s'. update s j d = Some (Inr s')))
   \<and> (query s k = Some (Inr (v, s'')) \<longrightarrow> s'' = s)
   \<and> (represents s a \<longrightarrow>
        int (length (tree_f s)) = sint (size_f s) + 1 \<and> tree_f s ! 0 = 0
        \<and> (\<forall>i\<in>{1..sint (size_f s)}. tree_f s ! nat i = sum a {i - lowbit i..<i}))"
proof (intro conjI impI)
  assume "0 \<le>s n" "FenwickTree_ctor n = Inr s0"
  then show "represents s0 (elem_of [])" by (simp add: ctor_represents)
next
  assume r: "represents s (elem_of ops)" and j: "in_range s j"
    and u: "update s j d = Some (Inr s')"
  have w: "well_formed s" using r by (simp add: represents_def)
  show "represents s' (elem_of (ops @ [(j, d)]))"
    unfolding elem_of_snoc using update_represents [OF r _ _ u] j by (simp add: in_range_def)
  show "size_f s' = size_f s" using update_Inr(3) [OF w j u] .
  show "length (tree_f s') = length (tree_f s)"
    using update_Inr(1) [OF w j u] by (simp add: length_add_covering)
next
  assume r: "represents s (elem_of ops)" and j: "in_range s j"
    and small: "sint (size_f s) < 2 ^ 30"
  have w: "well_formed s" using r by (simp add: represents_def)
  show "\<exists>s'. update s j d = Some (Inr s')" using update_succeeds [OF w j small] by simp
next
  assume "query s k = Some (Inr (v, s''))"
  then show "s'' = s" by (rule query_unchanged)
next
  assume r: "represents s a"
  then show "int (length (tree_f s)) = sint (size_f s) + 1"
    by (simp add: represents_def well_formed_def)
  show "tree_f s ! 0 = 0" using r by (simp add: represents_def)
  show "\<forall>i\<in>{1..sint (size_f s)}. tree_f s ! nat i = sum a {i - lowbit i..<i}"
    using r by (simp add: represents_def)
qed

theorem structural_invariant_witness:
  "represents \<lparr>size_f = 5, tree_f = [0, 0, 0, 0, 0, 0]\<rparr> (elem_of [])
   \<and> update \<lparr>size_f = 5, tree_f = [0, 0, 0, 0, 0, 0]\<rparr> 0 1
       = Some (Inr \<lparr>size_f = 5, tree_f = [0, 1, 1, 0, 1, 0]\<rparr>)
   \<and> represents \<lparr>size_f = 5, tree_f = [0, 1, 1, 0, 1, 0]\<rparr> (elem_of [(0, 1)])
   \<and> tree_f \<lparr>size_f = 5, tree_f = [0, 1, 1, 0, 1, 0]\<rparr> ! nat 4
       = sum (elem_of [(0, 1)]) {4 - lowbit 4..<4}"
proof -
  let ?s0 = "\<lparr>size_f = 5, tree_f = [0, 0, 0, 0, 0, 0 :: cint]\<rparr>"
  let ?s1 = "\<lparr>size_f = 5, tree_f = [0, 1, 1, 0, 1, 0 :: cint]\<rparr>"
  have n: "(0 :: cint) \<le>s 5" by (simp add: word_sle_eq)
  have c: "FenwickTree_ctor 5 = Inr ?s0" by code_simp
  have j: "in_range ?s0 0" by (simp add: in_range_def word_sle_eq word_sless_alt)
  have u: "update ?s0 0 1 = Some (Inr ?s1)" by code_simp
  have q: "query ?s0 2 = Some (Inr (0, ?s0))" by code_simp
  note t = structural_invariant [of 5 ?s0 ?s0 "[]" 0 1 ?s1 2 0 ?s0 "elem_of [(0, 1)]"]
  have r0: "represents ?s0 (elem_of [])" using t n c by blast
  have "represents ?s1 (elem_of ([] @ [(0, 1)]))" using t r0 j u by blast
  then have r1: "represents ?s1 (elem_of [(0, 1)])" by simp
  then have "\<forall>i\<in>{1..sint (size_f ?s1)}.
      tree_f ?s1 ! nat i = sum (elem_of [(0, 1)]) {i - lowbit i..<i}"
    unfolding represents_def by (rule conjunct2 [THEN conjunct2])
  moreover have "(4 :: int) \<in> {1..sint (size_f ?s1)}" by simp
  ultimately have "tree_f ?s1 ! nat 4 = sum (elem_of [(0, 1)]) {4 - lowbit 4..<4}"
    by (rule bspec)
  with r0 r1 u show ?thesis by blast
qed

subsection \<open>C7: the query is a pure read\<close>

text \<open>
  Claim C7. For every store and in-range index \<open>k\<close>, the call \<open>query(k)\<close> leaves the store
  unchanged and returns the same value when it is repeated, and two queries return the same
  values in either order.
\<close>

theorem query_pure:
  assumes "well_formed s" and "in_range s k1" and "in_range s k2"
  shows "\<exists>v1 v2.
      query s k1 = Some (Inr (v1, s)) \<and> query s k2 = Some (Inr (v2, s))
    \<and> then_do (query s k1) (\<lambda>(a, s'). query s' k1) = Some (Inr (v1, s))
    \<and> then_do (query s k1) (\<lambda>(a, s'). then_do (query s' k2) (\<lambda>(b, s''). Some (Inr ((a, b), s''))))
        = Some (Inr ((v1, v2), s))
    \<and> then_do (query s k2) (\<lambda>(b, s'). then_do (query s' k1) (\<lambda>(a, s''). Some (Inr ((a, b), s''))))
        = Some (Inr ((v1, v2), s))"
proof -
  obtain v1 where v1: "query s k1 = Some (Inr (v1, s))"
    using query_returns [OF assms(1,2)] by blast
  obtain v2 where v2: "query s k2 = Some (Inr (v2, s))"
    using query_returns [OF assms(1,3)] by blast
  show ?thesis using v1 v2 by (simp add: then_do_def)
qed

theorem query_pure_witness:
  "\<exists>v1 v2.
      query \<lparr>size_f = 5, tree_f = [0, 1, 3, 3, 6, 0]\<rparr> 1
        = Some (Inr (v1, \<lparr>size_f = 5, tree_f = [0, 1, 3, 3, 6, 0]\<rparr>))
    \<and> query \<lparr>size_f = 5, tree_f = [0, 1, 3, 3, 6, 0]\<rparr> 2
        = Some (Inr (v2, \<lparr>size_f = 5, tree_f = [0, 1, 3, 3, 6, 0]\<rparr>))
    \<and> then_do (query \<lparr>size_f = 5, tree_f = [0, 1, 3, 3, 6, 0]\<rparr> 1)
         (\<lambda>(a, s'). then_do (query s' 2) (\<lambda>(b, s''). Some (Inr ((a, b), s''))))
        = Some (Inr ((v1, v2), \<lparr>size_f = 5, tree_f = [0, 1, 3, 3, 6, 0]\<rparr>))
    \<and> then_do (query \<lparr>size_f = 5, tree_f = [0, 1, 3, 3, 6, 0]\<rparr> 2)
         (\<lambda>(b, s'). then_do (query s' 1) (\<lambda>(a, s''). Some (Inr ((a, b), s''))))
        = Some (Inr ((v1, v2), \<lparr>size_f = 5, tree_f = [0, 1, 3, 3, 6, 0]\<rparr>))"
proof -
  let ?s = "\<lparr>size_f = 5, tree_f = [0, 1, 3, 3, 6, 0 :: cint]\<rparr>"
  have w: "well_formed ?s" by (simp add: well_formed_def word_sle_eq)
  have k1: "in_range ?s 1" by (simp add: in_range_def word_sle_eq word_sless_alt)
  have k2: "in_range ?s 2" by (simp add: in_range_def word_sle_eq word_sless_alt)
  from query_pure [OF w k1 k2] show ?thesis by blast
qed

subsection \<open>C8: termination\<close>

text \<open>
  Claim C8. Every call of \<open>update\<close> and \<open>query\<close> with an in-range index terminates: the
  loop of \<open>update\<close> stops once the 1-based position exceeds the capacity, the loop of
  \<open>query\<close> once the position reaches 0. The lemmas \<open>query_returns\<close>, \<open>update_returns\<close> and
  \<open>update_succeeds\<close> show it for \<open>query\<close> on every store and for \<open>update\<close> on every store
  of a capacity below \<open>2^30\<close>. On the store of capacity \<open>2^30\<close>, for which the constructor
  returns, the call \<open>update(2^30 - 1, 1)\<close> with its in-range index does not stop that way:
  after the first step the position \<open>2^30 + 2^30\<close> wraps around to \<open>-2^31\<close>, which does
  not exceed the capacity, and the loop body subscripts the vector at a negative position.
\<close>

theorem update_leaves_int_range:
  "FenwickTree_ctor 1073741824 = Inr \<lparr>size_f = 1073741824, tree_f = replicate 1073741825 0\<rparr>
   \<and> in_range \<lparr>size_f = 1073741824, tree_f = replicate 1073741825 0\<rparr> 1073741823
   \<and> sint ((1073741824 :: cint) + (1073741824 AND - 1073741824)) = - 2147483648
   \<and> update \<lparr>size_f = 1073741824, tree_f = replicate 1073741825 0\<rparr> 1073741823 1
       = Some (Inl OutOfBounds)"
proof -
  let ?s = "\<lparr>size_f = 1073741824, tree_f = replicate 1073741825 (0 :: cint)\<rparr>"
  have c: "FenwickTree_ctor 1073741824 = Inr ?s"
    using ctor_closed [of 1073741824] by (simp add: word_sle_eq)
  have w: "well_formed ?s" by (simp add: well_formed_def word_sle_eq)
  have r: "in_range ?s 1073741823" by (simp add: in_range_def word_sle_eq word_sless_alt)
  have "overflows 1073741824 1073741824"
    by (rule overflows_here) (simp_all add: lowbit_2_30)
  then have u: "update ?s 1073741823 1 = Some (Inl OutOfBounds)"
    using update_closed [OF w, of 1073741823 1] r by (simp add: in_range_def)
  have "sint ((1073741824 :: cint) + (1073741824 AND - 1073741824)) = - 2147483648"
    by simp
  with c r u show ?thesis by blast
qed

subsection \<open>C9: the scenario of the first test\<close>

text \<open>
  Claim C9. On a store of capacity 5: after \<open>update(0,1)\<close>, \<open>query(0) = 1\<close>, \<open>query(1) = 1\<close>
  and \<open>query(2) = 1\<close>; then after \<open>update(1,2)\<close>, \<open>query(0) = 1\<close>, \<open>query(1) = 3\<close> and
  \<open>query(2) = 3\<close>; then after \<open>update(2,3)\<close>, \<open>query(2) = 6\<close>; then after \<open>update(3,4)\<close> and
  \<open>update(4,5)\<close>, \<open>query(3) = 10\<close> and \<open>query(4) = 15\<close>. Every call returns, and each
  query hands the store back as it got it.
\<close>

theorem scenario_capacity_5:
  "FenwickTree_ctor 5 = Inr \<lparr>size_f = 5, tree_f = [0, 0, 0, 0, 0, 0]\<rparr>
   \<and> update \<lparr>size_f = 5, tree_f = [0, 0, 0, 0, 0, 0]\<rparr> 0 1
       = Some (Inr \<lparr>size_f = 5, tree_f = [0, 1, 1, 0, 1, 0]\<rparr>)
   \<and> query \<lparr>size_f = 5, tree_f = [0, 1, 1, 0, 1, 0]\<rparr> 0
       = Some (Inr (1, \<lparr>size_f = 5, tree_f = [0, 1, 1, 0, 1, 0]\<rparr>))
   \<and> query \<lparr>size_f = 5, tree_f = [0, 1, 1, 0, 1, 0]\<rparr> 1
       = Some (Inr (1, \<lparr>size_f = 5, tree_f = [0, 1, 1, 0, 1, 0]\<rparr>))
   \<and> query \<lparr>size_f = 5, tree_f = [0, 1, 1, 0, 1, 0]\<rparr> 2
       = Some (Inr (1, \<lparr>size_f = 5, tree_f = [0, 1, 1, 0, 1, 0]\<rparr>))
   \<and> update \<lparr>size_f = 5, tree_f = [0, 1, 1, 0, 1, 0]\<rparr> 1 2
       = Some (Inr \<lparr>size_f = 5, tree_f = [0, 1, 3, 0, 3, 0]\<rparr>)
   \<and> query \<lparr>size_f = 5, tree_f = [0, 1, 3, 0, 3, 0]\<rparr> 0
       = Some (Inr (1, \<lparr>size_f = 5, tree_f = [0, 1, 3, 0, 3, 0]\<rparr>))
   \<and> query \<lparr>size_f = 5, tree_f = [0, 1, 3, 0, 3, 0]\<rparr> 1
       = Some (Inr (3, \<lparr>size_f = 5, tree_f = [0, 1, 3, 0, 3, 0]\<rparr>))
   \<and> query \<lparr>size_f = 5, tree_f = [0, 1, 3, 0, 3, 0]\<rparr> 2
       = Some (Inr (3, \<lparr>size_f = 5, tree_f = [0, 1, 3, 0, 3, 0]\<rparr>))
   \<and> update \<lparr>size_f = 5, tree_f = [0, 1, 3, 0, 3, 0]\<rparr> 2 3
       = Some (Inr \<lparr>size_f = 5, tree_f = [0, 1, 3, 3, 6, 0]\<rparr>)
   \<and> query \<lparr>size_f = 5, tree_f = [0, 1, 3, 3, 6, 0]\<rparr> 2
       = Some (Inr (6, \<lparr>size_f = 5, tree_f = [0, 1, 3, 3, 6, 0]\<rparr>))
   \<and> update \<lparr>size_f = 5, tree_f = [0, 1, 3, 3, 6, 0]\<rparr> 3 4
       = Some (Inr \<lparr>size_f = 5, tree_f = [0, 1, 3, 3, 10, 0]\<rparr>)
   \<and> update \<lparr>size_f = 5, tree_f = [0, 1, 3, 3, 10, 0]\<rparr> 4 5
       = Some (Inr \<lparr>size_f = 5, tree_f = [0, 1, 3, 3, 10, 5]\<rparr>)
   \<and> query \<lparr>size_f = 5, tree_f = [0, 1, 3, 3, 10, 5]\<rparr> 3
       = Some (Inr (10, \<lparr>size_f = 5, tree_f = [0, 1, 3, 3, 10, 5]\<rparr>))
   \<and> query \<lparr>size_f = 5, tree_f = [0, 1, 3, 3, 10, 5]\<rparr> 4
       = Some (Inr (15, \<lparr>size_f = 5, tree_f = [0, 1, 3, 3, 10, 5]\<rparr>))"
  by (intro conjI; code_simp)

subsection \<open>C10: an update beyond the capacity\<close>

text \<open>
  Claim C10, as stated: for every store of capacity \<open>N\<close> and every index \<open>\<ge> N\<close>, the call
  \<open>update(index, delta)\<close> leaves every accumulator slot unchanged; the loop never runs and
  the call is a silent no-op. It fails at the index \<open>2^31 - 1\<close>: there \<open>index++\<close> wraps
  around to \<open>-2^31\<close>, which is not above the capacity, and the loop body subscripts the
  vector at a negative position.
\<close>

theorem update_beyond_capacity_counterexample:
  "(5 :: cint) \<le>s 2147483647
   \<and> update \<lparr>size_f = 5, tree_f = [0, 0, 0, 0, 0, 0]\<rparr> 2147483647 1 = Some (Inl OutOfBounds)
   \<and> update \<lparr>size_f = 5, tree_f = [0, 0, 0, 0, 0, 0]\<rparr> 2147483647 1
       \<noteq> Some (Inr \<lparr>size_f = 5, tree_f = [0, 0, 0, 0, 0, 0]\<rparr>)"
  by (intro conjI; code_simp)

text \<open>
  Claim C10, amended: for every store of capacity \<open>N\<close> and every index with
  \<open>N \<le> index < 2^31 - 1\<close>, the call \<open>update(index, delta)\<close> returns and leaves the store as it
  was: the position \<open>index + 1\<close> is above the capacity and the loop never runs.
\<close>

theorem update_beyond_capacity:
  assumes "size_f s \<le>s index" and "sint index < 2 ^ 31 - 1"
  shows "update s index delta = Some (Inr s)"
  using assms by (rule update_above)

theorem update_beyond_capacity_witness:
  "update \<lparr>size_f = 5, tree_f = [0, 1, 3, 0, 3, 0]\<rparr> 5 7
     = Some (Inr \<lparr>size_f = 5, tree_f = [0, 1, 3, 0, 3, 0]\<rparr>)"
proof -
  have "size_f \<lparr>size_f = 5, tree_f = [0, 1, 3, 0, 3, 0 :: cint]\<rparr> \<le>s 5"
    by (simp add: word_sle_eq)
  moreover have "sint (5 :: cint) < 2 ^ 31 - 1" by simp
  ultimately show ?thesis by (rule update_beyond_capacity)
qed

end
